theory Spec2Isabelle
  imports Complex_Main "HOL-Library.Log_Nat"
begin

section \<open>Values and exceptions\<close>

text \<open>
  The service is Python. Values that travel as JSON (the reply of the layout-parsing
  service, the per-page objects, the body of the HTTP answer) are modelled by one
  datatype; a Python \<open>dict\<close> is an association list in insertion order whose keys are
  distinct, read with \<open>map_of\<close>.
\<close>

datatype json =
    JNull
  | JBool bool
  | JInt int
  | JFloat rat
  | JStr string
  | JArr "json list"
  | JObj "(string \<times> json) list"

text \<open>
  Every \<open>raise\<close>, failed \<open>assert\<close> and failing subscript of the source is a value of
  \<open>error\<close>. The three \<open>detail\<close> texts of \<open>app.py\<close> are Chinese sentences; they are
  represented by tags: \<open>SystemBusy\<close> (system busy, single concurrency only),
  \<open>PdfOnly\<close> (only PDF files are supported) and \<open>ProcessingError e\<close> (an error
  occurred while processing the PDF file, followed by \<open>str(e)\<close>).
\<close>

datatype error =
    AssertionError
  | KeyError string
  | TypeError
  | AttributeError
  | ValueError
  | ZeroDivisionError
  | Cv2Error
  | RequestException
  | JSONDecodeError
  | FileDataError
  | TimeoutError
  | OSError
  | HTTPException int detail
and detail =
    SystemBusy
  | PdfOnly
  | ProcessingError error

definition bind :: "error + 'a \<Rightarrow> ('a \<Rightarrow> error + 'b) \<Rightarrow> error + 'b" where
  "bind m f = (case m of Inl e \<Rightarrow> Inl e | Inr x \<Rightarrow> f x)"

text \<open>\<open>obj[key]\<close> with a string key: only a dict supports it.\<close>

fun getitem :: "json \<Rightarrow> string \<Rightarrow> error + json" where
  "getitem (JObj kvs) k = (case map_of kvs k of None \<Rightarrow> Inl (KeyError k) | Some v \<Rightarrow> Inr v)"
| "getitem _ k = Inl TypeError"

text \<open>
  Iteration, as \<open>enumerate\<close> does it: a list yields its items, a dict its keys, a string
  its characters; \<open>None\<close>, booleans and numbers are not iterable.
\<close>

fun iterate :: "json \<Rightarrow> error + json list" where
  "iterate (JArr xs) = Inr xs"
| "iterate (JObj kvs) = Inr (map (\<lambda>kv. JStr (fst kv)) kvs)"
| "iterate (JStr s) = Inr (map (\<lambda>c. JStr [c]) s)"
| "iterate _ = Inl TypeError"

section \<open>Floating point\<close>

text \<open>
  \<open>longest_side / width\<close> and \<open>height * scale\<close> are IEEE 754 binary64 operations, each
  the exact result rounded to the nearest representable number, ties to even.
  \<open>fl\<close> is that rounding on the rationals: 53 significant bits, exponent range
  unbounded (no overflow or underflow, which image sizes do not reach).
\<close>

definition pow2 :: "int \<Rightarrow> rat" where
  "pow2 e = (if 0 \<le> e then 2 ^ nat e else 1 / 2 ^ nat (- e))"

definition round_half_even :: "rat \<Rightarrow> int" where
  "round_half_even y =
     (let f = \<lfloor>y\<rfloor>; r = y - of_int f
      in if r < 1 / 2 then f
         else if 1 / 2 < r then f + 1
         else if even f then f else f + 1)"

text \<open>\<open>ilog2 q\<close> is the exponent \<open>k\<close> with \<open>2^k \<le> q < 2^(k+1)\<close>, for \<open>q > 0\<close>.\<close>

definition ilog2 :: "rat \<Rightarrow> int" where
  "ilog2 q =
     (let a = fst (quotient_of q); b = snd (quotient_of q); k = bitlen a - bitlen b
      in if pow2 k \<le> q then k else k - 1)"

definition fl_pos :: "rat \<Rightarrow> rat" where
  "fl_pos q = (let e = ilog2 q - 52 in of_int (round_half_even (q / pow2 e)) * pow2 e)"

definition fl :: "rat \<Rightarrow> rat" where
  "fl q = (if q = 0 then 0 else if q < 0 then - fl_pos (- q) else fl_pos q)"

text \<open>\<open>int(x)\<close> on a float truncates toward zero.\<close>

definition py_int :: "rat \<Rightarrow> int" where
  "py_int x = (if 0 \<le> x then \<lfloor>x\<rfloor> else \<lceil>x\<rceil>)"

text \<open>Each rounding changes a positive number by at most this fraction of it.\<close>

definition unit_roundoff :: rat where
  "unit_roundoff = 1 / 2 ^ 53"

section \<open>utils.py\<close>

text \<open>An image is known by its \<open>shape[:2]\<close>, which is \<open>(height, width)\<close>.\<close>

record image =
  height :: int
  width :: int

text \<open>
  \<open>cv2.resize(image, (new_width, new_height), ...)\<close> returns an image of the requested
  size and raises \<open>cv2.error\<close> when a requested side is not positive.
\<close>

text \<open>
  In \<open>height * scale\<close> the int operand becomes a float first; the conversion is exact
  below \<open>2^53\<close>, so the product of the exact integer is rounded once.
\<close>

definition cv2_resize :: "image \<Rightarrow> int \<times> int \<Rightarrow> error + image" where
  "cv2_resize img dsize =
     (if fst dsize \<le> 0 \<or> snd dsize \<le> 0 then Inl Cv2Error
      else Inr \<lparr>height = snd dsize, width = fst dsize\<rparr>)"

definition resize_longest_side :: "image \<Rightarrow> int \<Rightarrow> error + image" where
  "resize_longest_side img longest_side =
     (if width img > height img then
        if width img = 0 then Inl ZeroDivisionError
        else
          let scale = fl (of_int longest_side / of_int (width img));
              new_width = longest_side;
              new_height = py_int (fl (of_int (height img) * scale))
          in cv2_resize img (new_width, new_height)
      else
        if height img = 0 then Inl ZeroDivisionError
        else
          let scale = fl (of_int longest_side / of_int (height img));
              new_height = longest_side;
              new_width = py_int (fl (of_int (width img) * scale))
          in cv2_resize img (new_width, new_height))"

text \<open>
  What the world does for one page of the document: what \<open>cv2.imread\<close> returns for
  the rendered file (\<open>None\<close> when it cannot be read), the success flag of
  \<open>cv2.imencode\<close> on the resized image, and what \<open>requests.post\<close> returns or raises
  for this page's payload.
\<close>

record response =
  status_code :: int
  body :: "json option"

record page =
  imread :: "image option"
  imencode_success :: bool
  post :: "error + response"

text \<open>
  \<open>encode_image_to_base64\<close> on a cv2 image: the Base64 text itself is opaque to the
  rest of the pipeline, only the failure of \<open>imencode\<close> matters.
\<close>

definition encode_image_to_base64 :: "bool \<Rightarrow> image \<Rightarrow> error + image" where
  "encode_image_to_base64 success img = (if \<not> success then Inl ValueError else Inr img)"

text \<open>\<open>response.json()\<close> raises when the body is not JSON.\<close>

definition response_json :: "response \<Rightarrow> error + json" where
  "response_json r = (case body r of None \<Rightarrow> Inl JSONDecodeError | Some j \<Rightarrow> Inr j)"

definition process_layout_parsing_result :: "response \<Rightarrow> error + json" where
  "process_layout_parsing_result r =
     (if status_code r \<noteq> 200 then Inl AssertionError
      else bind (response_json r) (\<lambda>j. getitem j ''result''))"

text \<open>
  \<open>markdown_dict\<close> is keyed by \<open>f"page{i+1}"\<close>; the keys of one call are pairwise
  different, so the dict is the list of its items in insertion order, and a key is
  represented by its number \<open>i+1\<close>.
\<close>

fun markdown_items :: "nat \<Rightarrow> json list \<Rightarrow> (nat \<times> json) list \<Rightarrow> error + (nat \<times> json) list" where
  "markdown_items i [] markdown_dict = Inr markdown_dict"
| "markdown_items i (res # rest) markdown_dict =
     bind (getitem res ''markdown'') (\<lambda>m.
     bind (getitem m ''text'') (\<lambda>text.
     markdown_items (i + 1) rest (markdown_dict @ [(i + 1, text)])))"

definition extract_markdown_from_result :: "json \<Rightarrow> error + (nat \<times> json) list" where
  "extract_markdown_from_result result =
     bind (getitem result ''layoutParsingResults'') (\<lambda>lpr.
     bind (iterate lpr) (\<lambda>items. markdown_items 0 items []))"

text \<open>
  The statistics loop evaluates \<open>len(content)\<close> and \<open>content.count('\n') + 1\<close>:
  a string and a list have both, a dict has no \<open>count\<close>, the rest has no \<open>len\<close>.
\<close>

fun char_and_line_count :: "json \<Rightarrow> error + unit" where
  "char_and_line_count (JStr s) = Inr ()"
| "char_and_line_count (JArr xs) = Inr ()"
| "char_and_line_count (JObj kvs) = Inl AttributeError"
| "char_and_line_count _ = Inl TypeError"

fun statistics :: "(nat \<times> json) list \<Rightarrow> error + unit" where
  "statistics [] = Inr ()"
| "statistics (item # rest) = bind (char_and_line_count (snd item)) (\<lambda>_. statistics rest)"

definition page_json :: "nat \<Rightarrow> json \<Rightarrow> json" where
  "page_json i content =
     JObj [(''page'', JInt (int i + 1)),
           (''ocrContent'',
              JObj [(''backend'', JStr ''pipeline''),
                    (''version'', JStr ''2.5.4''),
                    (''results'', JObj [(''image'', JObj [(''md_content'', content)])])])]"

subsection \<open>The run and its effects\<close>

text \<open>
  The state a run can change: the value of \<open>processing_semaphore\<close>, the directory
  \<open>temp_pdf_images\<close> (\<open>None\<close> when it does not exist, else the names of the files in
  it), the files made by \<open>NamedTemporaryFile\<close> that still exist, and the number of
  requests sent to the layout-parsing service.
\<close>

record world =
  sem_value :: nat
  temp_dir :: "string list option"
  temp_files :: "string list"
  api_calls :: nat

fun str_nat :: "nat \<Rightarrow> string" where
  "str_nat n =
     (if n < 10 then [char_of (48 + n)]
      else str_nat (n div 10) @ [char_of (48 + n mod 10)])"

declare str_nat.simps [simp del]

text \<open>\<open>f"page_{i+1:03d}.png"\<close> under \<open>output_dir\<close>.\<close>

definition page_path :: "nat \<Rightarrow> string" where
  "page_path i =
     (let digits = str_nat (i + 1)
      in ''temp_pdf_images/page_'' @ replicate (3 - length digits) (CHR ''0'') @ digits @ ''.png'')"

text \<open>
  \<open>pdf_to_images\<close>: \<open>mkdir(exist_ok=True)\<close>, then \<open>fitz.open\<close>, which raises on a file
  that is not a PDF and else gives the pages; every page is saved under its path. The
  document is given by what \<open>fitz.open\<close> makes of it; each returned path comes with
  the page it was rendered from.
\<close>

definition pdf_to_images :: "error + page list \<Rightarrow> world \<Rightarrow> (error + (string \<times> page) list) \<times> world" where
  "pdf_to_images doc s =
     (let present = (case temp_dir s of None \<Rightarrow> [] | Some fs \<Rightarrow> fs)
      in case doc of
           Inl e \<Rightarrow> (Inl e, s\<lparr>temp_dir := Some present\<rparr>)
         | Inr pages \<Rightarrow>
             let image_paths = map page_path [0..<length pages]
             in (Inr (zip image_paths pages),
                 s\<lparr>temp_dir := Some (List.union present image_paths)\<rparr>))"

text \<open>The body of the \<open>for\<close> loop of \<open>process_pdf_file\<close>, for page number \<open>i\<close> (from 0).\<close>

definition process_page :: "int \<Rightarrow> nat \<Rightarrow> page \<Rightarrow> world \<Rightarrow> (error + json list) \<times> world" where
  "process_page longest_side i p s =
     (case imread p of
        None \<Rightarrow> (Inr [], s)
      | Some img \<Rightarrow>
          (case bind (resize_longest_side img longest_side)
                     (encode_image_to_base64 (imencode_success p)) of
             Inl e \<Rightarrow> (Inl e, s)
           | Inr image_data \<Rightarrow>
               (bind (post p) (\<lambda>response.
                bind (process_layout_parsing_result response) (\<lambda>result.
                bind (extract_markdown_from_result result) (\<lambda>page_markdowns.
                bind (statistics page_markdowns) (\<lambda>_.
                Inr (map (\<lambda>item. page_json i (snd item)) page_markdowns))))),
                s\<lparr>api_calls := api_calls s + 1\<rparr>)))"

fun process_pages ::
  "int \<Rightarrow> nat \<Rightarrow> (string \<times> page) list \<Rightarrow> json list \<Rightarrow> world \<Rightarrow> (error + json list) \<times> world" where
  "process_pages longest_side i [] all_markdowns s = (Inr all_markdowns, s)"
| "process_pages longest_side i (image_path # rest) all_markdowns s =
     (case process_page longest_side i (snd image_path) s of
        (Inl e, s') \<Rightarrow> (Inl e, s')
      | (Inr new, s') \<Rightarrow> process_pages longest_side (i + 1) rest (all_markdowns @ new) s')"

text \<open>
  \<open>process_pdf_file\<close> returns \<open>json.dumps(all_markdowns)\<close>, which \<open>app.py\<close> reads
  back with \<open>json.loads\<close>; the text is represented by the list it denotes. The
  \<open>finally\<close> clause removes \<open>temp_pdf_images\<close> whenever it exists.
\<close>

definition process_pdf_file :: "error + page list \<Rightarrow> int \<Rightarrow> world \<Rightarrow> (error + json list) \<times> world" where
  "process_pdf_file pdf_input longest_side s =
     (let outcome =
            (case pdf_to_images pdf_input s of
               (Inl e, s') \<Rightarrow> (Inl e, s')
             | (Inr image_paths, s') \<Rightarrow> process_pages longest_side 0 image_paths [] s')
      in (fst outcome, (snd outcome)\<lparr>temp_dir := None\<rparr>))"

section \<open>app.py\<close>

text \<open>
  A request carries the file name, the uploaded document (as \<open>fitz.open\<close> will see
  it) and \<open>longest_side\<close>. The environment of one call decides which name
  \<open>NamedTemporaryFile\<close> picks and whether writing the upload into that file raises.
\<close>

record request =
  filename :: string
  upload :: "error + page list"
  longest_side :: int

record env =
  write_fails :: bool
  temp_file_path :: string

datatype http_response = JSONResponse json int

definition lower :: "string \<Rightarrow> string" where
  "lower s = map (\<lambda>c. let n = (of_char c :: nat) in if 65 \<le> n \<and> n \<le> 90 then char_of (n + 32) else c) s"

definition endswith :: "string \<Rightarrow> string \<Rightarrow> bool" where
  "endswith s suffix = (length suffix \<le> length s \<and> drop (length s - length suffix) s = suffix)"

text \<open>
  \<open>asyncio.wait_for(coro, timeout)\<close>: with \<open>timeout <= 0\<close> the coroutine is wrapped in
  a new task, which is not done yet; the task is cancelled before its first step and
  \<open>TimeoutError\<close> is raised, so the body of the coroutine never runs. With a positive
  timeout a coroutine that does not block runs to its end.
\<close>

definition wait_for :: "(world \<Rightarrow> world) \<Rightarrow> int \<Rightarrow> world \<Rightarrow> error + world" where
  "wait_for coro timeout s = (if timeout \<le> 0 then Inl TimeoutError else Inr (coro s))"

text \<open>\<open>Semaphore.acquire()\<close> on a semaphore that is not locked takes one slot.\<close>

definition semaphore_acquire :: "world \<Rightarrow> world" where
  "semaphore_acquire s = s\<lparr>sem_value := sem_value s - 1\<rparr>"

text \<open>
  The admission check at the top of \<open>process_pdf\<close>: \<open>locked()\<close> is true when the
  value is 0; otherwise \<open>wait_for(processing_semaphore.acquire(), timeout=0)\<close> is
  awaited and its \<open>TimeoutError\<close> answered with 429.
\<close>

definition acquire_gate :: "world \<Rightarrow> error + world" where
  "acquire_gate s =
     (if sem_value s \<noteq> 0 then
        (case wait_for semaphore_acquire 0 s of
           Inl TimeoutError \<Rightarrow> Inl (HTTPException 429 SystemBusy)
         | Inl ex \<Rightarrow> Inl ex
         | Inr s1 \<Rightarrow> Inr s1)
      else Inl (HTTPException 429 SystemBusy))"

text \<open>
  The statements of the outer \<open>try\<close>, before \<open>except Exception\<close> sees them.
  \<open>NamedTemporaryFile(delete=False)\<close> creates the file; \<open>temp_file.write\<close> comes
  before the inner \<open>try\<close>, so when it raises the \<open>with\<close> block closes the file and
  the \<open>unlink\<close> of the inner \<open>finally\<close> is not reached.
\<close>

definition guarded_body :: "env \<Rightarrow> request \<Rightarrow> world \<Rightarrow> (error + http_response) \<times> world" where
  "guarded_body e req s =
     (if \<not> endswith (lower (filename req)) ''.pdf'' then (Inl (HTTPException 400 PdfOnly), s)
      else
        let s1 = s\<lparr>temp_files := temp_file_path e # temp_files s\<rparr>
        in if write_fails e then (Inl OSError, s1)
           else
             let run = process_pdf_file (upload req) (longest_side req) s1;
                 answer =
                   bind (fst run) (\<lambda>result_data.
                     Inr (JSONResponse
                            (JObj [(''success'', JBool True),
                                   (''filename'', JStr (filename req)),
                                   (''total_pages'', JInt (int (length result_data))),
                                   (''results'', JArr result_data)])
                            200));
                 s2 = snd run
             in (answer, s2\<lparr>temp_files := removeAll (temp_file_path e) (temp_files s2)\<rparr>))"

definition process_pdf :: "env \<Rightarrow> request \<Rightarrow> world \<Rightarrow> (error + http_response) \<times> world" where
  "process_pdf e req s =
     (case acquire_gate s of
        Inl busy \<Rightarrow> (Inl busy, s)
      | Inr s1 \<Rightarrow>
          let attempt = guarded_body e req s1;
              answer = (case fst attempt of
                          Inl ex \<Rightarrow> Inl (HTTPException 500 (ProcessingError ex))
                        | Inr r \<Rightarrow> Inr r);
              s2 = snd attempt
          in (answer, s2\<lparr>sem_value := sem_value s2 + 1\<rparr>))"

section \<open>Vocabulary of the properties\<close>

text \<open>What the pipeline reads out of one reply: the markdown texts, or the exception.\<close>

definition reply_texts :: "response \<Rightarrow> error + json list" where
  "reply_texts r =
     bind (process_layout_parsing_result r) (\<lambda>result.
     bind (extract_markdown_from_result result) (\<lambda>page_markdowns.
     bind (statistics page_markdowns) (\<lambda>_. Inr (map snd page_markdowns))))"

text \<open>The page's image is read, resized and encoded, so its payload is sent.\<close>

definition reaches_service :: "int \<Rightarrow> page \<Rightarrow> bool" where
  "reaches_service T p =
     (case imread p of
        None \<Rightarrow> False
      | Some img \<Rightarrow>
          (case resize_longest_side img T of Inl e \<Rightarrow> False | Inr resized \<Rightarrow> imencode_success p))"

text \<open>The loop body raises nothing on the page: it is skipped or fully parsed.\<close>

definition completes :: "int \<Rightarrow> page \<Rightarrow> bool" where
  "completes T p =
     (case imread p of
        None \<Rightarrow> True
      | Some img \<Rightarrow>
          reaches_service T p \<and>
          (case bind (post p) reply_texts of Inl e \<Rightarrow> False | Inr texts \<Rightarrow> True))"

text \<open>
  A reply in the form the service promises: status 200 and
  \<open>result.layoutParsingResults[j].markdown.text\<close>.
\<close>

definition layout_reply :: "json list \<Rightarrow> response" where
  "layout_reply texts =
     \<lparr>status_code = 200,
      body = Some (JObj [(''result'',
               JObj [(''layoutParsingResults'',
                 JArr (map (\<lambda>t. JObj [(''markdown'', JObj [(''text'', t)])]) texts))])])\<rparr>"


text \<open>
  The size the specification gives for the normalized image, as (width, height):
  \<open>scale = targetLongestSide / max(width, height)\<close>, then
  \<open>round(width*scale), round(height*scale)\<close>, in exact arithmetic.
\<close>

definition spec_normalized_size :: "image \<Rightarrow> int \<Rightarrow> int \<times> int" where
  "spec_normalized_size img T =
     (let scale = (of_int T :: rat) / of_int (max (width img) (height img))
      in (round (of_int (width img) * scale), round (of_int (height img) * scale)))"

text \<open>
  The aggregate the specification asks for: one record for each page of the document,
  their \<open>page\<close> fields being 1 to N in this order.
\<close>

definition one_record_per_page :: "page list \<Rightarrow> error + json list \<Rightarrow> bool" where
  "one_record_per_page pages outcome =
     (case outcome of
        Inl e \<Rightarrow> False
      | Inr records \<Rightarrow>
          map (\<lambda>r. getitem r ''page'') records
            = map (\<lambda>n. Inr (JInt (int n))) [1..<length pages + 1])"

text \<open>\<open>r["ocrContent"]["results"]["image"]["md_content"]\<close> of a result entry.\<close>

definition md_content :: "json \<Rightarrow> error + json" where
  "md_content r =
     bind (getitem r ''ocrContent'') (\<lambda>ocr.
     bind (getitem ocr ''results'') (\<lambda>res.
     bind (getitem res ''image'') (\<lambda>im. getitem im ''md_content'')))"

subsection \<open>Concrete inputs\<close>

definition free_world :: world where
  "free_world = \<lparr>sem_value = 1, temp_dir = None, temp_files = [], api_calls = 0\<rparr>"

definition held_world :: world where
  "held_world = \<lparr>sem_value = 0, temp_dir = None, temp_files = [], api_calls = 0\<rparr>"

definition calm :: env where
  "calm = \<lparr>write_fails = False, temp_file_path = ''/tmp/tmpk3v9.pdf''\<rparr>"

definition disk_full :: env where
  "disk_full = \<lparr>write_fails = True, temp_file_path = ''/tmp/tmpk3v9.pdf''\<rparr>"

text \<open>An A4 page rendered at twice 72 dpi is 1190 by 1684 pixels.\<close>

definition a4_page :: "error + response \<Rightarrow> page" where
  "a4_page answer =
     \<lparr>imread = Some \<lparr>height = 1684, width = 1190\<rparr>, imencode_success = True, post = answer\<rparr>"

definition unreadable_page :: page where
  "unreadable_page =
     \<lparr>imread = None, imencode_success = True, post = Inr (layout_reply [JStr ''lost''])\<rparr>"

definition http_500 :: response where
  "http_500 = \<lparr>status_code = 500, body = None\<rparr>"

definition page_says :: "string \<Rightarrow> page" where
  "page_says t = a4_page (Inr (layout_reply [JStr t]))"

definition three_pages :: request where
  "three_pages =
     \<lparr>filename = ''scan.pdf'',
      upload = Inr [page_says ''Page 1'', page_says ''Page 2'', page_says ''Page 3''],
      longest_side = 1280\<rparr>"

definition second_page_fails :: request where
  "second_page_fails =
     \<lparr>filename = ''scan.pdf'',
      upload = Inr [page_says ''Page 1'', a4_page (Inr http_500), page_says ''Page 3''],
      longest_side = 1280\<rparr>"

definition first_page_unreadable :: request where
  "first_page_unreadable =
     \<lparr>filename = ''scan.pdf'', upload = Inr [unreadable_page, page_says ''Page 2''],
      longest_side = 1280\<rparr>"

section \<open>What a run leaves behind\<close>

lemma process_page_frame:
  "sem_value (snd (process_page T i p s)) = sem_value s"
  "temp_dir (snd (process_page T i p s)) = temp_dir s"
  "temp_files (snd (process_page T i p s)) = temp_files s"
  by (simp_all add: process_page_def split: option.split sum.split)

lemma process_pages_frame:
  "sem_value (snd (process_pages T i ps acc s)) = sem_value s \<and>
   temp_dir (snd (process_pages T i ps acc s)) = temp_dir s \<and>
   temp_files (snd (process_pages T i ps acc s)) = temp_files s"
proof (induction ps arbitrary: i acc s)
  case Nil
  show ?case by simp
next
  case (Cons p ps)
  obtain r s' where step: "process_page T i (snd p) s = (r, s')"
    by (cases "process_page T i (snd p) s")
  have frame: "sem_value s' = sem_value s" "temp_dir s' = temp_dir s" "temp_files s' = temp_files s"
    using process_page_frame [of T i "snd p" s] step by simp_all
  show ?case
  proof (cases r)
    case (Inl e)
    with step frame show ?thesis by simp
  next
    case (Inr new)
    with step frame Cons.IH [of "i + 1" "acc @ new" s'] show ?thesis by simp
  qed
qed

lemma pdf_to_images_frame:
  "sem_value (snd (pdf_to_images doc s)) = sem_value s"
  "temp_files (snd (pdf_to_images doc s)) = temp_files s"
  by (simp_all add: pdf_to_images_def Let_def split: sum.split)

lemma process_pdf_file_frame:
  "sem_value (snd (process_pdf_file doc T s)) = sem_value s"
  "temp_files (snd (process_pdf_file doc T s)) = temp_files s"
  "temp_dir (snd (process_pdf_file doc T s)) = None"
proof -
  obtain r s1 where a: "pdf_to_images doc s = (r, s1)"
    by (cases "pdf_to_images doc s")
  have f1: "sem_value s1 = sem_value s" "temp_files s1 = temp_files s"
    using pdf_to_images_frame [of doc s] a by simp_all
  show "sem_value (snd (process_pdf_file doc T s)) = sem_value s"
    using a f1 process_pages_frame by (cases r) (simp_all add: process_pdf_file_def Let_def)
  show "temp_files (snd (process_pdf_file doc T s)) = temp_files s"
    using a f1 process_pages_frame by (cases r) (simp_all add: process_pdf_file_def Let_def)
  show "temp_dir (snd (process_pdf_file doc T s)) = None"
    by (simp add: process_pdf_file_def Let_def)
qed

lemma guarded_body_sem: "sem_value (snd (guarded_body e req s)) = sem_value s"
  by (simp add: guarded_body_def Let_def process_pdf_file_frame)

section \<open>The page loop\<close>

lemma process_page_unreadable:
  "imread p = None \<Longrightarrow> process_page T i p s = (Inr [], s)"
  by (simp add: process_page_def)

lemma process_page_reaches_service:
  assumes "reaches_service T p"
  shows "process_page T i p s =
           (bind (bind (post p) reply_texts) (\<lambda>texts. Inr (map (page_json i) texts)),
            s\<lparr>api_calls := api_calls s + 1\<rparr>)"
proof -
  from assms obtain img resized where
    "imread p = Some img" "resize_longest_side img T = Inr resized" "imencode_success p"
    by (auto simp: reaches_service_def split: option.splits sum.splits)
  then show ?thesis
    by (simp add: process_page_def bind_def encode_image_to_base64_def reply_texts_def
             split: sum.split)
qed

lemma reply_texts_not_200: "status_code r \<noteq> 200 \<Longrightarrow> reply_texts r = Inl AssertionError"
  by (simp add: reply_texts_def process_layout_parsing_result_def bind_def)

lemma reply_texts_single: "reply_texts (layout_reply [JStr t]) = Inr [JStr t]"
  by (simp add: reply_texts_def layout_reply_def process_layout_parsing_result_def bind_def
        response_json_def extract_markdown_from_result_def)

text \<open>What the loop returns does not depend on the state it starts in.\<close>

lemma process_page_result_stateless:
  "fst (process_page T i p s) = fst (process_page T i p s')"
  by (simp add: process_page_def split: option.split sum.split)

lemma process_pages_result_stateless:
  "fst (process_pages T i ps acc s) = fst (process_pages T i ps acc s')"
proof (induction ps arbitrary: i acc s s')
  case Nil
  show ?case by simp
next
  case (Cons p ps)
  obtain r t where a: "process_page T i (snd p) s = (r, t)"
    by (cases "process_page T i (snd p) s")
  obtain r' t' where b: "process_page T i (snd p) s' = (r', t')"
    by (cases "process_page T i (snd p) s'")
  have same: "r' = r"
    using process_page_result_stateless [of T i "snd p" s s'] a b by simp
  show ?case
  proof (cases r)
    case (Inl e)
    with a b same show ?thesis by simp
  next
    case (Inr new)
    with a b same Cons.IH [of "i + 1" "acc @ new" t t'] show ?thesis by simp
  qed
qed

lemma process_pdf_file_result_stateless:
  "fst (process_pdf_file doc T s) = fst (process_pdf_file doc T s')"
proof (cases doc)
  case (Inl e)
  then show ?thesis by (simp add: process_pdf_file_def pdf_to_images_def Let_def)
next
  case (Inr pages)
  then show ?thesis
    using process_pages_result_stateless
    by (simp add: process_pdf_file_def pdf_to_images_def Let_def)
qed

lemma process_pages_append:
  "process_pages T i (ps @ qs) acc s =
     (case process_pages T i ps acc s of
        (Inl e, s') \<Rightarrow> (Inl e, s')
      | (Inr out, s') \<Rightarrow> process_pages T (i + length ps) qs out s')"
proof (induction ps arbitrary: i acc s)
  case Nil
  show ?case by simp
next
  case (Cons p ps)
  obtain r t where a: "process_page T i (snd p) s = (r, t)"
    by (cases "process_page T i (snd p) s")
  show ?case
  proof (cases r)
    case (Inl e)
    with a show ?thesis by simp
  next
    case (Inr new)
    obtain r2 t2 where b: "process_pages T (i + 1) ps (acc @ new) t = (r2, t2)"
      by (cases "process_pages T (i + 1) ps (acc @ new) t")
    have n: "i + length (p # ps) = i + 1 + length ps" by simp
    from a Inr b Cons.IH [of "i + 1" "acc @ new" t] show ?thesis
      unfolding n by (cases r2) simp_all
  qed
qed

lemma process_page_completes:
  assumes "completes T p"
  shows "\<exists>new. process_page T i p s =
           (Inr new, s\<lparr>api_calls := api_calls s + (if imread p = None then 0 else 1)\<rparr>)"
proof (cases "imread p")
  case None
  then show ?thesis by (simp add: process_page_unreadable)
next
  case (Some img)
  with assms have r: "reaches_service T p"
    and ok: "\<exists>texts. bind (post p) reply_texts = Inr texts"
    by (auto simp: completes_def split: sum.splits)
  from ok obtain texts where "bind (post p) reply_texts = Inr texts" ..
  with Some show ?thesis
    by (simp add: process_page_reaches_service [OF r] bind_def)
qed

lemma process_pages_complete:
  assumes "\<forall>p\<in>set ps. completes T (snd p)"
  shows "\<exists>out. process_pages T i ps acc s =
           (Inr out, s\<lparr>api_calls := api_calls s + length (filter (\<lambda>p. imread p \<noteq> None) (map snd ps))\<rparr>)"
  using assms
proof (induction ps arbitrary: i acc s)
  case Nil
  show ?case by simp
next
  case (Cons p ps)
  from Cons.prems have "completes T (snd p)" by simp
  from process_page_completes [OF this, of i s] obtain new where
    step: "process_page T i (snd p) s =
             (Inr new, s\<lparr>api_calls := api_calls s + (if imread (snd p) = None then 0 else 1)\<rparr>)" ..
  from Cons.prems have rest: "\<forall>q\<in>set ps. completes T (snd q)" by simp
  from Cons.IH [OF rest, of "i + 1" "acc @ new"
      "s\<lparr>api_calls := api_calls s + (if imread (snd p) = None then 0 else 1)\<rparr>"]
  obtain out where
    "process_pages T (i + 1) ps (acc @ new)
        (s\<lparr>api_calls := api_calls s + (if imread (snd p) = None then 0 else 1)\<rparr>) =
      (Inr out, s\<lparr>api_calls := api_calls s + (if imread (snd p) = None then 0 else 1)\<rparr>
         \<lparr>api_calls := api_calls (s\<lparr>api_calls := api_calls s + (if imread (snd p) = None then 0 else 1)\<rparr>)
             + length (filter (\<lambda>p. imread p \<noteq> None) (map snd ps))\<rparr>)" ..
  with step show ?case by (cases "imread (snd p)") auto
qed

lemma process_pages_single_texts:
  assumes "\<forall>p\<in>set ps. reaches_service T (snd p) \<and> (\<exists>c. bind (post (snd p)) reply_texts = Inr [c])"
  shows "\<exists>cs. length cs = length ps \<and>
           fst (process_pages T i ps acc s) = Inr (acc @ map2 page_json [i..<i + length ps] cs)"
  using assms
proof (induction ps arbitrary: i acc s)
  case Nil
  show ?case by simp
next
  case (Cons p ps)
  from Cons.prems obtain c where r: "reaches_service T (snd p)"
    and c: "bind (post (snd p)) reply_texts = Inr [c]" by auto
  have step: "process_page T i (snd p) s = (Inr [page_json i c], s\<lparr>api_calls := api_calls s + 1\<rparr>)"
    by (simp add: process_page_reaches_service [OF r] c) (simp add: bind_def)
  from Cons.prems have rest:
    "\<forall>q\<in>set ps. reaches_service T (snd q) \<and> (\<exists>c. bind (post (snd q)) reply_texts = Inr [c])"
    by simp
  from Cons.IH [OF rest, of "i + 1" "acc @ [page_json i c]" "s\<lparr>api_calls := api_calls s + 1\<rparr>"]
  obtain cs where len: "length cs = length ps" and
    run: "fst (process_pages T (i + 1) ps (acc @ [page_json i c]) (s\<lparr>api_calls := api_calls s + 1\<rparr>))
            = Inr ((acc @ [page_json i c]) @ map2 page_json [i + 1..<i + 1 + length ps] cs)"
    by blast
  have upt: "[i..<i + length (p # ps)] = i # [i + 1..<i + 1 + length ps]"
    by (subst upt_rec) simp
  show ?case
  proof (intro exI conjI)
    show "length (c # cs) = length (p # ps)" using len by simp
    show "fst (process_pages T i (p # ps) acc s)
            = Inr (acc @ map2 page_json [i..<i + length (p # ps)] (c # cs))"
      unfolding upt using step run by simp
  qed
qed

lemma process_pages_abort:
  assumes "\<forall>p\<in>set bs. completes T (snd p)"
      and "reaches_service T (snd q)"
      and "post (snd q) = Inr r"
      and "status_code r \<noteq> 200"
  shows "process_pages T i (bs @ q # rest) acc s =
           (Inl AssertionError,
            s\<lparr>api_calls := api_calls s + length (filter (\<lambda>p. imread p \<noteq> None) (map snd bs)) + 1\<rparr>)"
proof -
  from process_pages_complete [OF assms(1), of i acc s] obtain out where
    first: "process_pages T i bs acc s =
              (Inr out, s\<lparr>api_calls := api_calls s + length (filter (\<lambda>p. imread p \<noteq> None) (map snd bs))\<rparr>)" ..
  have "bind (post (snd q)) reply_texts = Inl AssertionError"
    using assms(3,4) by (simp add: bind_def reply_texts_not_200)
  then have page: "process_page T j (snd q) t = (Inl AssertionError, t\<lparr>api_calls := api_calls t + 1\<rparr>)" for j t
    by (simp add: process_page_reaches_service [OF assms(2)]) (simp add: bind_def)
  show ?thesis
    by (simp add: process_pages_append first page)
qed

lemma map_snd_zip_paths:
  "length xs = length ys \<Longrightarrow> map snd (zip xs ys) = ys"
  by (induction xs ys rule: list_induct2) simp_all

lemma process_pdf_file_pages:
  "process_pdf_file (Inr pages) T s =
     (fst (process_pages T 0 (zip (map page_path [0..<length pages]) pages) []
             (s\<lparr>temp_dir := Some (List.union (case temp_dir s of None \<Rightarrow> [] | Some fs \<Rightarrow> fs)
                                     (map page_path [0..<length pages]))\<rparr>)),
      (snd (process_pages T 0 (zip (map page_path [0..<length pages]) pages) []
             (s\<lparr>temp_dir := Some (List.union (case temp_dir s of None \<Rightarrow> [] | Some fs \<Rightarrow> fs)
                                     (map page_path [0..<length pages]))\<rparr>)))\<lparr>temp_dir := None\<rparr>)"
  by (simp add: process_pdf_file_def pdf_to_images_def Let_def)

lemma zip_paths_split:
  assumes "length paths = length (before @ pk # after)"
  shows "\<exists>bs y zs. zip paths (before @ pk # after) = bs @ (y, pk) # zs \<and> map snd bs = before"
proof -
  have z: "zip paths (before @ pk # after)
             = zip (take (length before) paths) before @ zip (drop (length before) paths) (pk # after)"
    by (rule zip_append2)
  from assms have "length (drop (length before) paths) = Suc (length after)" by simp
  then obtain y ys where d: "drop (length before) paths = y # ys"
    by (cases "drop (length before) paths") simp_all
  from assms have "length (take (length before) paths) = length before" by simp
  then have "map snd (zip (take (length before) paths) before) = before"
    by (rule map_snd_zip_paths)
  with z d show ?thesis by auto
qed

lemma getitem_page: "getitem (page_json i c) ''page'' = Inr (JInt (int i + 1))"
  by (simp add: page_json_def)

lemma page_numbers:
  "map (\<lambda>r. getitem r ''page'') (map2 page_json [i..<i + length cs] cs)
     = map (\<lambda>n. Inr (JInt (int n))) [i + 1..<i + length cs + 1]"
proof (induction cs arbitrary: i)
  case Nil
  show ?case by simp
next
  case (Cons c cs)
  have l: "[i..<i + length (c # cs)] = i # [i + 1..<i + 1 + length cs]"
    by (subst upt_rec) simp
  have r: "[i + 1..<i + length (c # cs) + 1] = (i + 1) # [i + 1 + 1..<i + 1 + length cs + 1]"
    by (subst upt_rec) simp
  show ?case
    unfolding l r using Cons.IH [of "i + 1"] by (simp add: getitem_page)
qed

lemma a4_reaches_service: "reaches_service 1280 (a4_page answer)"
proof -
  have "resize_longest_side \<lparr>height = 1684, width = 1190\<rparr> 1280 = Inr \<lparr>height = 1280, width = 904\<rparr>"
    by code_simp
  then show ?thesis by (simp add: reaches_service_def a4_page_def)
qed

section \<open>The admission gate\<close>

text \<open>
  C5. A request that arrives while the semaphore is held (its value is 0) is answered
  within the call by \<open>HTTPException(429)\<close> with the busy message; nothing else
  happens: the semaphore, the temporary directory and files and the number of requests
  sent to the parsing service are as before, so the run in flight is not touched and
  the pipeline is not entered.
\<close>

theorem busy_request_rejected:
  "sem_value s = 0 \<Longrightarrow> process_pdf e req s = (Inl (HTTPException 429 SystemBusy), s)"
  by (simp add: process_pdf_def acquire_gate_def)

theorem busy_request_rejected_witness:
  "process_pdf calm
     \<lparr>filename = ''b.pdf'', upload = Inr [a4_page (Inr (layout_reply [JStr ''Page 1'']))],
      longest_side = 1280\<rparr>
     held_world
   = (Inl (HTTPException 429 SystemBusy), held_world)"
  using busy_request_rejected [of held_world] by (simp add: held_world_def)

text \<open>
  C4. No call acquires the semaphore. When it is free, \<open>wait_for\<close> with timeout 0
  cancels the acquisition before it runs, so the attempt ends in the 429 that the
  comments of \<open>process_pdf\<close> reserve for a held semaphore: every request, in every
  state, is answered 429 and changes nothing. The guarded block and the release in
  its \<open>finally\<close> clause are never reached, and an attempt on a free gate, the first
  one included, does not succeed.
\<close>

theorem free_gate_never_acquired:
  "acquire_gate s = Inl (HTTPException 429 SystemBusy) \<and>
   process_pdf e req s = (Inl (HTTPException 429 SystemBusy), s)"
  by (simp add: process_pdf_def acquire_gate_def wait_for_def)

text \<open>
  C3. The upload \<open>notes.txt\<close>, sent while the semaphore is free, is answered 429 and
  not 400: the admission check rejects it before the file-name check is reached. The
  state, and with it the slot count, is unchanged.
\<close>

theorem non_pdf_upload_answers_429:
  "process_pdf calm \<lparr>filename = ''notes.txt'', upload = Inr [], longest_side = 1280\<rparr> free_world
     = (Inl (HTTPException 429 SystemBusy), free_world)"
  by code_simp

section \<open>Temporary files\<close>

text \<open>
  When the write of the upload succeeds, the guarded block leaves nothing behind: the
  file made by \<open>NamedTemporaryFile\<close> is unlinked and \<open>process_pdf_file\<close> has removed
  the directory of page images, whatever the document and the replies are.
\<close>

lemma guarded_body_cleans_up:
  assumes "\<not> write_fails e" and "endswith (lower (filename req)) ''.pdf''"
  shows "temp_dir (snd (guarded_body e req s)) = None \<and>
         temp_file_path e \<notin> set (temp_files (snd (guarded_body e req s))) \<and>
         set (temp_files (snd (guarded_body e req s))) \<subseteq> set (temp_files s)"
  using assms by (auto simp: guarded_body_def Let_def process_pdf_file_frame)

text \<open>
  C9. The exit on which the guarded block leaves a file behind: \<open>temp_file.write\<close>
  raises (the disk is full, say). The file exists since \<open>NamedTemporaryFile\<close> made
  it, the exception leaves the \<open>with\<close> block before the inner \<open>try\<close> is entered, and
  the block ends with the file still there.
\<close>

theorem failed_write_leaves_upload_file:
  "guarded_body disk_full three_pages free_world
     = (Inl OSError, free_world\<lparr>temp_files := [''/tmp/tmpk3v9.pdf'']\<rparr>)"
  by code_simp

section \<open>The answer\<close>

text \<open>
  C10. Every JSON answer is built in the guarded block of \<open>process_pdf\<close>, always with
  status 200: its \<open>total_pages\<close> is the length of its \<open>results\<close>, and \<open>results\<close> is
  the list \<open>process_pdf_file\<close> produced, so the number counts the entries and not
  the pages of the document. The instance below is a two-page document whose first
  image cannot be read: \<open>total_pages\<close> is 1.
\<close>

theorem total_pages_counts_results:
  assumes "fst (guarded_body e req s) = Inr (JSONResponse content code)"
  shows "code = 200 \<and>
         (\<exists>result_data.
            fst (process_pdf_file (upload req) (longest_side req) s) = Inr result_data \<and>
            getitem content ''results'' = Inr (JArr result_data) \<and>
            getitem content ''total_pages'' = Inr (JInt (int (length result_data))))"
proof -
  from assms have pdf: "endswith (lower (filename req)) ''.pdf''" and w: "\<not> write_fails e"
    by (auto simp: guarded_body_def Let_def split: if_splits)
  define s2 where "s2 = s\<lparr>temp_files := temp_file_path e # temp_files s\<rparr>"
  from assms pdf w obtain result_data where
    run: "fst (process_pdf_file (upload req) (longest_side req) s2) = Inr result_data" and
    ans: "JSONResponse content code =
            JSONResponse (JObj [(''success'', JBool True), (''filename'', JStr (filename req)),
               (''total_pages'', JInt (int (length result_data))), (''results'', JArr result_data)]) 200"
    by (auto simp: guarded_body_def Let_def s2_def bind_def split: sum.splits)
  from run have "fst (process_pdf_file (upload req) (longest_side req) s) = Inr result_data"
    using process_pdf_file_result_stateless [of "upload req" "longest_side req" s s2] by simp
  with ans show ?thesis by simp
qed

theorem total_pages_counts_results_witness:
  "\<exists>content.
     fst (guarded_body calm first_page_unreadable free_world) = Inr (JSONResponse content 200) \<and>
     getitem content ''results'' = Inr (JArr [page_json 1 (JStr ''Page 2'')]) \<and>
     getitem content ''total_pages'' = Inr (JInt 1)"
proof -
  have run: "fst (guarded_body calm first_page_unreadable free_world) =
      Inr (JSONResponse
              (JObj [(''success'', JBool True), (''filename'', JStr ''scan.pdf''),
                     (''total_pages'', JInt 1), (''results'', JArr [page_json 1 (JStr ''Page 2'')])])
              200)"
    by code_simp
  from total_pages_counts_results [OF run] obtain result_data where
    "getitem (JObj [(''success'', JBool True), (''filename'', JStr ''scan.pdf''),
                     (''total_pages'', JInt 1), (''results'', JArr [page_json 1 (JStr ''Page 2'')])])
        ''results'' = Inr (JArr result_data)"
    "getitem (JObj [(''success'', JBool True), (''filename'', JStr ''scan.pdf''),
                     (''total_pages'', JInt 1), (''results'', JArr [page_json 1 (JStr ''Page 2'')])])
        ''total_pages'' = Inr (JInt (int (length result_data)))"
    by blast
  with run show ?thesis by auto
qed

text \<open>
  C8. \<open>process_pdf_file\<close> on a document with no pages returns the empty result, but
  the request that uploads it, the semaphore being free, is answered 429 and not 200.
\<close>

theorem zero_page_pdf_answers_429:
  "process_pdf calm \<lparr>filename = ''empty.pdf'', upload = Inr [], longest_side = 1280\<rparr> free_world
     = (Inl (HTTPException 429 SystemBusy), free_world) \<and>
   fst (process_pdf_file (Inr []) 1280 free_world) = Inr []"
  by code_simp

text \<open>
  C7. On three pages that the service answers with \<open>Page 1\<close>, \<open>Page 2\<close> and
  \<open>Page 3\<close>, \<open>process_pdf_file\<close> returns the three entries, the second one with
  \<open>md_content\<close> \<open>Page 2\<close>; the request that uploads the document, the semaphore
  being free, is answered 429 and not 200.
\<close>

theorem three_page_document_answers_429:
  "process_pdf calm three_pages free_world = (Inl (HTTPException 429 SystemBusy), free_world) \<and>
   fst (process_pdf_file (upload three_pages) (longest_side three_pages) free_world)
     = Inr [page_json 0 (JStr ''Page 1''), page_json 1 (JStr ''Page 2''),
            page_json 2 (JStr ''Page 3'')] \<and>
   md_content (page_json 1 (JStr ''Page 2'')) = Inr (JStr ''Page 2'')"
  by code_simp

section \<open>Failures inside the loop\<close>

text \<open>
  C1, as stated, fails: in a three-page document whose second page gets an HTTP 500
  from the service, the failed \<open>assert\<close> leaves \<open>process_pdf_file\<close>; there is no
  record for any page and the third page is never sent (two requests in all).
\<close>

theorem remote_failure_counterexample:
  "process_pdf_file (upload second_page_fails) 1280 free_world
     = (Inl AssertionError, free_world\<lparr>api_calls := 2\<rparr>)"
  by code_simp

text \<open>
  C1, amended. A reply with a status other than 200 on page k, the pages before k
  having been skipped or parsed, ends the run with \<open>AssertionError\<close>: nothing is
  returned for any page, the requests sent are those of the readable pages before k
  and the one of page k, and the temporary directory is removed.
\<close>

theorem remote_failure_aborts_run:
  assumes "upload req = Inr (before @ pk # after)"
      and "\<forall>p\<in>set before. completes (longest_side req) p"
      and "reaches_service (longest_side req) pk"
      and "post pk = Inr r"
      and "status_code r \<noteq> 200"
  shows "fst (process_pdf_file (upload req) (longest_side req) s) = Inl AssertionError \<and>
         api_calls (snd (process_pdf_file (upload req) (longest_side req) s))
           = api_calls s + length (filter (\<lambda>p. imread p \<noteq> None) before) + 1 \<and>
         temp_dir (snd (process_pdf_file (upload req) (longest_side req) s)) = None"
proof -
  let ?T = "longest_side req"
  let ?pages = "before @ pk # after"
  let ?paths = "map page_path [0..<length ?pages]"
  have "length ?paths = length ?pages" by simp
  from zip_paths_split [OF this] obtain bs y zs where
    split: "zip ?paths ?pages = bs @ (y, pk) # zs" and bs: "map snd bs = before" by blast
  have c: "\<forall>p\<in>set bs. completes ?T (snd p)"
  proof
    fix p assume "p \<in> set bs"
    then have "snd p \<in> set (map snd bs)" by simp
    with bs assms(2) show "completes ?T (snd p)" by simp
  qed
  have loop: "process_pages ?T 0 (zip ?paths ?pages) [] t =
           (Inl AssertionError,
            t\<lparr>api_calls := api_calls t + length (filter (\<lambda>p. imread p \<noteq> None) before) + 1\<rparr>)" for t
    unfolding split
    using process_pages_abort [of bs ?T "(y, pk)" r 0 zs "[]" t] c assms(3,4,5) bs by simp
  have whole: "fst (process_pdf_file (upload req) ?T s) = Inl AssertionError"
    unfolding assms(1) process_pdf_file_pages loop by simp
  have calls: "api_calls (snd (process_pdf_file (upload req) ?T s))
           = api_calls s + length (filter (\<lambda>p. imread p \<noteq> None) before) + 1"
    unfolding assms(1) process_pdf_file_pages loop by simp
  from whole calls show ?thesis
    by (simp add: process_pdf_file_frame)
qed

theorem remote_failure_aborts_run_witness:
  "fst (process_pdf_file (upload second_page_fails) (longest_side second_page_fails) free_world)
     = Inl AssertionError \<and>
   api_calls (snd (process_pdf_file (upload second_page_fails) (longest_side second_page_fails) free_world)) = 2 \<and>
   temp_dir (snd (process_pdf_file (upload second_page_fails) (longest_side second_page_fails) free_world)) = None"
proof -
  have u: "upload second_page_fails = Inr ([page_says ''Page 1''] @ a4_page (Inr http_500) # [page_says ''Page 3''])"
    by (simp add: second_page_fails_def)
  have "completes 1280 (page_says ''Page 1'')"
    by code_simp
  then have b: "\<forall>p\<in>set [page_says ''Page 1'']. completes (longest_side second_page_fails) p"
    by (simp add: second_page_fails_def)
  have k: "reaches_service (longest_side second_page_fails) (a4_page (Inr http_500))"
    using a4_reaches_service by (simp add: second_page_fails_def)
  have r: "post (a4_page (Inr http_500)) = Inr http_500"
    by (simp add: a4_page_def)
  have n: "status_code http_500 \<noteq> 200"
    by (simp add: http_500_def)
  have rd: "imread (page_says ''Page 1'') \<noteq> None"
    by (simp add: page_says_def a4_page_def)
  from remote_failure_aborts_run [OF u b k r n, of free_world] rd
  show ?thesis by (simp add: free_world_def)
qed

text \<open>
  C2, as stated, fails: a page whose image cannot be read is skipped by \<open>continue\<close>
  and leaves no record, so a two-page document whose first image is unreadable gives
  one record, numbered 2.
\<close>

theorem one_record_per_page_counterexample:
  "\<not> one_record_per_page [unreadable_page, page_says ''Page 2'']
       (fst (process_pdf_file (Inr [unreadable_page, page_says ''Page 2'']) 1280 free_world))"
  by code_simp

text \<open>
  C2, amended. When every page of an N-page document reaches the service and every
  reply parses to exactly one markdown text, the result has exactly N records and their
  \<open>page\<close> fields are 1 to N in ascending order.
\<close>

theorem aggregation_one_record_per_page:
  assumes "\<forall>p\<in>set pages. reaches_service T p \<and> (\<exists>c. bind (post p) reply_texts = Inr [c])"
  shows "one_record_per_page pages (fst (process_pdf_file (Inr pages) T s))"
proof -
  let ?ps = "zip (map page_path [0..<length pages]) pages"
  have ok: "\<forall>p\<in>set ?ps. reaches_service T (snd p) \<and> (\<exists>c. bind (post (snd p)) reply_texts = Inr [c])"
  proof
    fix p assume "p \<in> set ?ps"
    then have "(fst p, snd p) \<in> set (zip (map page_path [0..<length pages]) pages)" by simp
    then have "snd p \<in> set pages" by (rule set_zip_rightD)
    with assms show "reaches_service T (snd p) \<and> (\<exists>c. bind (post (snd p)) reply_texts = Inr [c])"
      by blast
  qed
  have len: "length ?ps = length pages" by simp
  from process_pages_single_texts [OF ok, of 0 "[]" s] len obtain cs where
    cs: "length cs = length pages" and
    run0: "fst (process_pages T 0 ?ps [] s) = Inr (map2 page_json [0..<length pages] cs)"
    by auto
  have run: "fst (process_pages T 0 ?ps [] t) = Inr (map2 page_json [0..<length pages] cs)" for t
    using run0 process_pages_result_stateless [of T 0 ?ps "[]" t s] by simp
  have "map (\<lambda>r. getitem r ''page'') (map2 page_json [0..<length pages] cs)
          = map (\<lambda>n. Inr (JInt (int n))) [1..<length pages + 1]"
    using page_numbers [of 0 cs] cs by simp
  with run show ?thesis
    by (simp add: one_record_per_page_def process_pdf_file_pages)
qed

theorem aggregation_one_record_per_page_witness:
  "one_record_per_page [page_says ''Page 1'', page_says ''Page 2'']
     (fst (process_pdf_file (Inr [page_says ''Page 1'', page_says ''Page 2'']) 1280 free_world))"
proof -
  have "reaches_service 1280 (page_says t) \<and> (\<exists>c. bind (post (page_says t)) reply_texts = Inr [c])" for t
    using a4_reaches_service
    by (simp add: page_says_def) (simp add: a4_page_def bind_def reply_texts_single)
  then have "\<forall>p\<in>set [page_says ''Page 1'', page_says ''Page 2''].
     reaches_service 1280 p \<and> (\<exists>c. bind (post p) reply_texts = Inr [c])"
    by simp
  from aggregation_one_record_per_page [OF this] show ?thesis .
qed

section \<open>Normalization of the image size\<close>

subsection \<open>The error of one rounding\<close>

lemma pow2_powi: "pow2 e = 2 powi e"
  by (simp add: pow2_def power_int_def power_inverse [symmetric] inverse_eq_divide power_one_over)

lemma pow2_pos: "0 < pow2 e"
  by (simp add: pow2_powi)

lemma pow2_minus_52: "pow2 (k - 52) = pow2 k / 2 ^ 52"
  by (simp add: pow2_powi power_int_diff)

lemma round_half_even_near: "\<bar>of_int (round_half_even y) - y\<bar> \<le> 1 / 2"
proof -
  have "of_int \<lfloor>y\<rfloor> \<le> y" "y < of_int \<lfloor>y\<rfloor> + 1" by linarith+
  then show ?thesis
    by (auto simp: round_half_even_def Let_def)
qed

lemma ilog2_lower:
  assumes "0 < q"
  shows "pow2 (ilog2 q) \<le> q"
proof -
  obtain a b where ab: "quotient_of q = (a, b)" by (cases "quotient_of q")
  then have b: "0 < b" by (rule quotient_of_denom_pos)
  from ab have q: "q = of_int a / of_int b" by (rule quotient_of_div)
  with assms b have a: "0 < a" by (simp add: zero_less_divide_iff)
  define k where "k = bitlen a - bitlen b"
  show ?thesis
  proof (cases "pow2 k \<le> q")
    case True
    then show ?thesis by (simp add: ilog2_def ab k_def Let_def)
  next
    case False
    have la: "(2::int) ^ nat (bitlen a - 1) \<le> a" using bitlen_bounds [OF a] by simp
    have lb: "b < (2::int) ^ nat (bitlen b)" using bitlen_bounds [OF b] by simp
    have a1: "1 \<le> bitlen a" using a bitlen_eq_zero_iff [of a] bitlen_nonneg [of a] by linarith
    have b0: "0 \<le> bitlen b" by (rule bitlen_nonneg)
    have ra: "(2::rat) powi (bitlen a - 1) \<le> of_int a"
    proof -
      have "(2::rat) powi (bitlen a - 1) = 2 ^ nat (bitlen a - 1)"
        using a1 by (simp add: power_int_def)
      also have "\<dots> = of_int (2 ^ nat (bitlen a - 1))" by simp
      also have "\<dots> \<le> of_int a" using la by (simp only: of_int_le_iff)
      finally show ?thesis .
    qed
    have rb: "of_int b \<le> (2::rat) powi (bitlen b)"
    proof -
      have "(of_int b :: rat) \<le> of_int (2 ^ nat (bitlen b))" using lb by (simp only: of_int_le_iff less_imp_le)
      also have "\<dots> = 2 powi (bitlen b)" using b0 by (simp add: power_int_def)
      finally show ?thesis .
    qed
    have "pow2 (k - 1) = 2 powi ((bitlen a - 1) - bitlen b)"
      by (simp add: pow2_powi k_def algebra_simps)
    also have "\<dots> = 2 powi (bitlen a - 1) / 2 powi (bitlen b)"
      by (rule power_int_diff) simp
    also have "\<dots> \<le> of_int a / 2 powi (bitlen b)"
      using ra by (simp add: divide_right_mono)
    also have "\<dots> \<le> of_int a / of_int b"
      using rb a b by (simp add: frac_le)
    finally have "pow2 (k - 1) \<le> q" using q by simp
    with False show ?thesis by (simp add: ilog2_def ab k_def Let_def)
  qed
qed

lemma ilog2_upper:
  assumes "0 < q"
  shows "q < pow2 (ilog2 q + 1)"
proof -
  obtain a b where ab: "quotient_of q = (a, b)" by (cases "quotient_of q")
  then have b: "0 < b" by (rule quotient_of_denom_pos)
  from ab have q: "q = of_int a / of_int b" by (rule quotient_of_div)
  with assms b have a: "0 < a" by (simp add: zero_less_divide_iff)
  define k where "k = bitlen a - bitlen b"
  show ?thesis
  proof (cases "pow2 k \<le> q")
    case False
    then show ?thesis by (simp add: ilog2_def ab k_def Let_def)
  next
    case True
    have ua: "a < (2::int) ^ nat (bitlen a)" using bitlen_bounds [OF a] by simp
    have lb: "(2::int) ^ nat (bitlen b - 1) \<le> b" using bitlen_bounds [OF b] by simp
    have a0: "0 \<le> bitlen a" by (rule bitlen_nonneg)
    have b1: "1 \<le> bitlen b" using b bitlen_eq_zero_iff [of b] bitlen_nonneg [of b] by linarith
    have ra: "of_int a < (2::rat) powi (bitlen a)"
    proof -
      have "(of_int a :: rat) < of_int (2 ^ nat (bitlen a))" using ua by (simp only: of_int_less_iff)
      also have "\<dots> = 2 powi (bitlen a)" using a0 by (simp add: power_int_def)
      finally show ?thesis .
    qed
    have rb: "(2::rat) powi (bitlen b - 1) \<le> of_int b"
    proof -
      have "(2::rat) powi (bitlen b - 1) = of_int (2 ^ nat (bitlen b - 1))"
        using b1 by (simp add: power_int_def)
      also have "\<dots> \<le> of_int b" using lb by (simp only: of_int_le_iff)
      finally show ?thesis .
    qed
    have "of_int a / of_int b < 2 powi (bitlen a) / (of_int b :: rat)"
      using ra b by (simp add: divide_strict_right_mono)
    also have "\<dots> \<le> 2 powi (bitlen a) / 2 powi (bitlen b - 1)"
      using rb by (simp add: frac_le)
    also have "\<dots> = 2 powi (bitlen a - (bitlen b - 1))"
      by (rule power_int_diff [symmetric]) simp
    also have "\<dots> = pow2 (k + 1)"
      by (simp add: pow2_powi k_def algebra_simps)
    finally have "q < pow2 (k + 1)" using q by simp
    with True show ?thesis by (simp add: ilog2_def ab k_def Let_def)
  qed
qed

text \<open>The number handed to \<open>round_half_even\<close> has a 53-bit integer part.\<close>

lemma significand_range:
  assumes "0 < q"
  shows "2 ^ 52 \<le> q / pow2 (ilog2 q - 52) \<and> q / pow2 (ilog2 q - 52) < 2 ^ 53"
proof -
  have p: "0 < pow2 (ilog2 q)" by (rule pow2_pos)
  have e: "q / pow2 (ilog2 q - 52) = q / pow2 (ilog2 q) * 2 ^ 52"
    by (simp add: pow2_minus_52)
  define m where "m = q / pow2 (ilog2 q)"
  have lo: "1 \<le> m"
    using ilog2_lower [OF assms] p by (simp add: m_def pos_le_divide_eq)
  have hi: "m < 2"
  proof -
    have "pow2 (ilog2 q + 1) = 2 * pow2 (ilog2 q)"
      by (simp add: pow2_powi power_int_add)
    with ilog2_upper [OF assms] p show ?thesis by (simp add: m_def pos_divide_less_eq)
  qed
  have "(2::rat) ^ 53 = 2 * 2 ^ 52" by simp
  moreover have "1 * 2 ^ 52 \<le> m * 2 ^ 52" using lo by (simp only: mult_le_cancel_right_pos zero_less_power zero_less_numeral)
  moreover have "m * 2 ^ 52 < 2 * 2 ^ 52" using hi by (simp only: mult_less_cancel_right_pos zero_less_power zero_less_numeral)
  ultimately show ?thesis unfolding e m_def [symmetric] by (simp only: mult_1)
qed

lemma fl_pos_error:
  assumes "0 < q"
  shows "\<bar>fl_pos q - q\<bar> \<le> q * unit_roundoff"
proof -
  define e where "e = ilog2 q - 52"
  define y where "y = q / pow2 e"
  have p: "0 < pow2 e" by (rule pow2_pos)
  have "pow2 e = pow2 (ilog2 q) / 2 ^ 52" unfolding e_def by (rule pow2_minus_52)
  also have "\<dots> \<le> q / 2 ^ 52" using ilog2_lower [OF assms] by (simp add: divide_right_mono)
  finally have small: "pow2 e \<le> q / 2 ^ 52" .
  have "fl_pos q - q = (of_int (round_half_even y) - y) * pow2 e"
    using p by (simp add: fl_pos_def e_def y_def Let_def algebra_simps)
  then have "\<bar>fl_pos q - q\<bar> = \<bar>of_int (round_half_even y) - y\<bar> * pow2 e"
    using p by (simp add: abs_mult)
  also have "\<dots> \<le> (1 / 2) * pow2 e"
    using round_half_even_near [of y] p by (simp add: mult_right_mono)
  also have "\<dots> \<le> (1 / 2) * (q / 2 ^ 52)"
    using small by simp
  also have "\<dots> = q * unit_roundoff" by (simp add: unit_roundoff_def)
  finally show ?thesis .
qed

lemma fl_positive: "0 < q \<Longrightarrow> fl q = fl_pos q"
  by (simp add: fl_def)

lemma fl_pos_bounds:
  assumes "0 < q"
  shows "q - q * unit_roundoff \<le> fl_pos q \<and> fl_pos q \<le> q + q * unit_roundoff"
  using fl_pos_error [OF assms] by linarith

lemma unit_roundoff_small:
  "0 < unit_roundoff" "unit_roundoff \<le> 1" "3 * 2 ^ 25 * unit_roundoff < 1 / 2 ^ 25"
  by (simp_all add: unit_roundoff_def)

subsection \<open>The truncated side\<close>

text \<open>
  \<open>a\<close> is the shorter side, \<open>l\<close> the longer one. The two roundings move the product
  by less than \<open>1 / l\<close>, and the exact value \<open>a * T / l\<close> is a multiple of \<open>1 / l\<close>,
  so the truncation is the integer part of the exact value, or one less when the
  exact value is an integer.
\<close>

lemma scaled_side_bounds:
  fixes a l T :: int
  assumes "0 < a" "a \<le> l" "0 < T" "l < 2 ^ 25" "T < 2 ^ 25"
  defines "n \<equiv> py_int (fl (of_int a * fl (of_int T / of_int l)))"
  shows "0 \<le> n \<and> n * l \<le> a * T \<and> a * T \<le> (n + 1) * l"
proof -
  define R :: rat where "R = of_int T / of_int l"
  define s where "s = fl R"
  define P where "P = of_int a * s"
  define x where "x = fl P"
  define E :: rat where "E = of_int a * R"
  define u :: rat where "u = unit_roundoff"
  have l: "0 < l" using assms by linarith
  have lr: "(0::rat) < of_int l" using l by simp
  have ar: "(0::rat) < of_int a" using assms by simp
  have R: "0 < R" using assms l by (simp add: R_def)
  have u: "0 < u" "u \<le> 1" and u25: "3 * 2 ^ 25 * u < 1 / 2 ^ 25"
    using unit_roundoff_small by (simp_all only: u_def)
  have s_eq: "s = fl_pos R" using R by (simp add: s_def fl_positive)
  have s_lo: "R - R * u \<le> s" and s_hi: "s \<le> R + R * u"
    using fl_pos_bounds [OF R] by (simp_all only: s_eq u_def)
  have "R * u < R"
  proof -
    have "u < 1" using u25 by simp
    then show ?thesis using R by simp
  qed
  with s_lo have s: "0 < s" by linarith
  have P: "0 < P" using ar s by (simp add: P_def)
  have x_eq: "x = fl_pos P" using P by (simp add: x_def fl_positive)
  have x_lo: "P - P * u \<le> x" and x_hi: "x \<le> P + P * u"
    using fl_pos_bounds [OF P] by (simp_all only: x_eq u_def)
  have E: "0 < E" using ar R by (simp add: E_def)
  have P_lo: "E - E * u \<le> P"
  proof -
    have "of_int a * (R - R * u) \<le> of_int a * s"
      using s_lo ar by (simp only: mult_le_cancel_left_pos)
    then show ?thesis by (simp add: E_def P_def algebra_simps)
  qed
  have P_hi: "P \<le> E + E * u"
  proof -
    have "of_int a * s \<le> of_int a * (R + R * u)"
      using s_hi ar by (simp only: mult_le_cancel_left_pos)
    then show ?thesis by (simp add: E_def P_def algebra_simps)
  qed
  have Pu: "P * u \<le> 2 * E * u"
  proof -
    have "E * u \<le> E" using E u by (simp add: mult_le_cancel_left2)
    with P_hi have "P \<le> 2 * E" by linarith
    then show ?thesis using u by (simp add: mult_right_mono)
  qed
  have x_near_lo: "E - 3 * E * u \<le> x" using x_lo P_lo Pu by linarith
  have x_near_hi: "x \<le> E + 3 * E * u" using x_hi P_hi Pu by linarith
  have E_le_T: "E \<le> of_int T"
  proof -
    have "a * T \<le> l * T" using assms by (simp add: mult_right_mono)
    then have "(of_int (a * T) :: rat) \<le> of_int (l * T)" by (simp only: of_int_le_iff)
    then have "(of_int a * of_int T :: rat) \<le> of_int T * of_int l" by (simp add: mult.commute)
    then show ?thesis using lr by (simp add: E_def R_def pos_divide_le_eq)
  qed
  have T_le: "(of_int T :: rat) \<le> 2 ^ 25"
  proof -
    have "(of_int T :: rat) \<le> of_int (2 ^ 25)" using assms(5) by (simp only: of_int_le_iff less_imp_le)
    then show ?thesis by simp
  qed
  have "3 * E * u \<le> 3 * 2 ^ 25 * u"
    using E_le_T T_le u by (simp add: mult_right_mono)
  also have "\<dots> < 1 / 2 ^ 25" by (rule u25)
  also have "\<dots> < 1 / of_int l"
  proof -
    have "(of_int l :: rat) < of_int (2 ^ 25)" using assms(4) by (simp only: of_int_less_iff)
    then have "(of_int l :: rat) < 2 ^ 25" by simp
    then show ?thesis using lr by (simp add: frac_less2)
  qed
  finally have tiny: "3 * E * u < 1 / of_int l" .
  have El: "E * of_int l = of_int (a * T)"
    using lr by (simp add: E_def R_def)
  have x0: "0 \<le> x"
  proof -
    have "P * u \<le> P" using P u by (simp add: mult_le_cancel_left2)
    with x_lo show ?thesis by linarith
  qed
  then have n: "n = \<lfloor>x\<rfloor>"
    by (simp add: n_def py_int_def x_def P_def s_def R_def)
  have n0: "0 \<le> n" using x0 n by simp
  have "of_int n \<le> x" using n by simp
  also have "\<dots> < E + 1 / of_int l" using x_near_hi tiny by linarith
  finally have "of_int n * of_int l < (E + 1 / of_int l) * of_int l"
    using lr by (simp only: mult_less_cancel_right_pos)
  also have "\<dots> = of_int (a * T) + 1"
    using lr El by (simp add: algebra_simps)
  finally have "(of_int (n * l) :: rat) < of_int (a * T + 1)" by simp
  then have "n * l < a * T + 1" by (simp only: of_int_less_iff)
  then have up: "n * l \<le> a * T" by simp
  have "E - 1 / of_int l < x" using x_near_lo tiny by linarith
  also have "\<dots> < of_int n + 1" using n by linarith
  finally have "(E - 1 / of_int l) * of_int l < (of_int n + 1) * of_int l"
    using lr by (simp only: mult_less_cancel_right_pos)
  moreover have "(E - 1 / of_int l) * of_int l = of_int (a * T) - 1"
    using lr El by (simp add: algebra_simps)
  ultimately have "(of_int (a * T - 1) :: rat) < of_int ((n + 1) * l)" by simp
  then have "a * T - 1 < (n + 1) * l" by (simp only: of_int_less_iff)
  then have lo: "a * T \<le> (n + 1) * l" by simp
  from n0 up lo show ?thesis by simp
qed

text \<open>
  C6, as stated, fails: the shorter side is \<open>int(side * scale)\<close>, a truncation, not
  \<open>round(side * scale)\<close>. An A4 page of 1190 by 1684 pixels with target 1280 gets
  width 904, where rounding 904.51 gives 905.
\<close>

theorem normalization_rounds_counterexample:
  "resize_longest_side \<lparr>height = 1684, width = 1190\<rparr> 1280 = Inr \<lparr>height = 1280, width = 904\<rparr> \<and>
   spec_normalized_size \<lparr>height = 1684, width = 1190\<rparr> 1280 = (905, 1280)"
  by code_simp

text \<open>
  C6, amended. For an image of positive width and height and a target \<open>T > 0\<close>, all
  below \<open>2^25\<close>, \<open>resize_longest_side\<close> asks for the longer side (the height when
  both are equal) to be exactly \<open>T\<close> and for the other side to be the truncation
  \<open>n\<close> of its scaled length as computed in binary64, which satisfies
  \<open>n \<le> side * T / longer \<le> n + 1\<close>. So the longest edge of the output is \<open>T\<close> and
  the other edge is within one pixel below its exact proportional length. When the
  truncation is 0, which needs \<open>side * T \<le> longer\<close>, \<open>cv2.resize\<close> raises instead.
\<close>

theorem resize_longest_side_truncates:
  assumes "0 < width img" "0 < height img" "0 < T"
      and "width img < 2 ^ 25" "height img < 2 ^ 25" "T < 2 ^ 25"
  shows "case resize_longest_side img T of
           Inl e \<Rightarrow> e = Cv2Error \<and> min (width img) (height img) * T \<le> max (width img) (height img)
         | Inr out \<Rightarrow>
             max (width out) (height out) = T \<and>
             (if width img > height img
              then width out = T \<and>
                   height out * width img \<le> height img * T \<and>
                   height img * T \<le> (height out + 1) * width img
              else height out = T \<and>
                   width out * height img \<le> width img * T \<and>
                   width img * T \<le> (width out + 1) * height img)"
proof (cases "width img > height img")
  case True
  define n where "n = py_int (fl (of_int (height img) * fl (of_int T / of_int (width img))))"
  from True have le: "height img \<le> width img" by simp
  from scaled_side_bounds [OF assms(2) le assms(3) assms(4) assms(6)]
  have n: "0 \<le> n" "n * width img \<le> height img * T" "height img * T \<le> (n + 1) * width img"
    by (simp_all add: n_def)
  have run: "resize_longest_side img T = cv2_resize img (T, n)"
    using True assms(1) by (simp add: resize_longest_side_def Let_def n_def)
  have "n * width img \<le> T * width img"
  proof -
    have "height img * T \<le> width img * T" using le assms(3) by (simp add: mult_right_mono)
    with n(2) show ?thesis by (simp add: mult.commute)
  qed
  then have nT: "n \<le> T" using assms(1) by simp
  show ?thesis
  proof (cases "n = 0")
    case True
    with n(3) \<open>height img < width img\<close> assms(3) show ?thesis
      by (simp add: run cv2_resize_def)
  next
    case False
    with n(1) have "0 < n" by simp
    with n nT True assms(3) show ?thesis
      by (simp add: run cv2_resize_def)
  qed
next
  case False
  define n where "n = py_int (fl (of_int (width img) * fl (of_int T / of_int (height img))))"
  from False have le: "width img \<le> height img" by simp
  from scaled_side_bounds [OF assms(1) le assms(3) assms(5) assms(6)]
  have n: "0 \<le> n" "n * height img \<le> width img * T" "width img * T \<le> (n + 1) * height img"
    by (simp_all add: n_def)
  have run: "resize_longest_side img T = cv2_resize img (n, T)"
    using False assms(2) by (simp add: resize_longest_side_def Let_def n_def)
  have "n * height img \<le> T * height img"
  proof -
    have "width img * T \<le> height img * T" using le assms(3) by (simp add: mult_right_mono)
    with n(2) show ?thesis by (simp add: mult.commute)
  qed
  then have nT: "n \<le> T" using assms(2) by simp
  show ?thesis
  proof (cases "n = 0")
    case True
    with n(3) le False assms(3) show ?thesis
      by (simp add: run cv2_resize_def)
  next
    case False
    with n(1) have "0 < n" by simp
    with n nT \<open>\<not> height img < width img\<close> assms(3) show ?thesis
      by (simp add: run cv2_resize_def)
  qed
qed

theorem resize_longest_side_truncates_witness:
  "resize_longest_side \<lparr>height = 1684, width = 1190\<rparr> 1280 = Inr \<lparr>height = 1280, width = 904\<rparr> \<and>
   max (904::int) 1280 = 1280 \<and> (904::int) * 1684 \<le> 1190 * 1280 \<and> (1190::int) * 1280 \<le> (904 + 1) * 1684"
proof -
  have run: "resize_longest_side \<lparr>height = 1684, width = 1190\<rparr> 1280 = Inr \<lparr>height = 1280, width = 904\<rparr>"
    by code_simp
  have small: "(1190::int) < 2 ^ 25" "(1684::int) < 2 ^ 25" "(1280::int) < 2 ^ 25"
    by simp_all
  from resize_longest_side_truncates [of "\<lparr>height = 1684, width = 1190\<rparr>" 1280] small
  show ?thesis by (simp add: run)
qed

end
